theory Spec2Isabelle
  imports Main "HOL-Library.Word" "HOL-Library.Log_Nat"
begin

section \<open>Samples, pixels and images\<close>

text \<open>
  Both scripts work on 8-bit samples (\<open>np.uint8\<close>).  A pixel is the list of its band
  samples (\<open>[r, g, b]\<close> for mode RGB, \<open>[r, g, b, a]\<close> for mode RGBA); an image is what
  PIL hands over: its mode string, its size and its pixels in row-major order, which is
  also the order of \<open>np.array(img).reshape(-1, bands)\<close>.
\<close>

type_synonym u8 = "8 word"
type_synonym pixel = "u8 list"

record image =
  mode :: string
  dims :: "nat \<times> nat"
  pix :: "pixel list"









section \<open>IEEE double precision, as far as the scripts use it\<close>

text \<open>
  A finite double is the rational number it denotes.  \<open>fl\<close> rounds a rational to the
  nearest number with a 53-bit significand, ties to even, which is what every double
  operation of the scripts does to its exact result.  The exponent is not bounded: the
  magnitudes that occur (samples up to 255, shade counts below \<open>2 ^ 63\<close>) are neither
  subnormal nor beyond the largest double.  The sign of a zero is not kept: the only
  division by zero divides by \<open>float(num_shades - 1)\<close>, a positive zero, and its
  numerator is never negative then.
\<close>

definition rne :: "rat \<Rightarrow> int" where
  "rne x = (let f = \<lfloor>x\<rfloor>; d = x - of_int f
            in if d < 1 / 2 then f else if 1 / 2 < d then f + 1
               else if even f then f else f + 1)"

definition expo :: "rat \<Rightarrow> int" where
  "expo x = (let (p, q) = quotient_of \<bar>x\<bar>; d = bitlen p - bitlen q
             in if 2 powi d \<le> \<bar>x\<bar> then d else d - 1)"

definition fl :: "rat \<Rightarrow> rat" where
  "fl x = (if x = 0 then 0
           else let u = 2 powi (expo x - 52) in of_int (rne (x / u)) * u)"

datatype f64 = Fin rat | PInf | NInf | NaN

fun f_div :: "f64 \<Rightarrow> f64 \<Rightarrow> f64" where
  "f_div (Fin x) (Fin y) =
     (if y = 0 then (if x = 0 then NaN else if 0 < x then PInf else NInf)
      else Fin (fl (x / y)))"
| "f_div NaN _ = NaN"
| "f_div _ NaN = NaN"
| "f_div (Fin x) _ = Fin 0"
| "f_div PInf (Fin y) = (if 0 \<le> y then PInf else NInf)"
| "f_div NInf (Fin y) = (if 0 \<le> y then NInf else PInf)"
| "f_div _ _ = NaN"

fun f_mul :: "f64 \<Rightarrow> f64 \<Rightarrow> f64" where
  "f_mul (Fin x) (Fin y) = Fin (fl (x * y))"
| "f_mul NaN _ = NaN"
| "f_mul _ NaN = NaN"
| "f_mul (Fin x) PInf = (if x = 0 then NaN else if 0 < x then PInf else NInf)"
| "f_mul (Fin x) NInf = (if x = 0 then NaN else if 0 < x then NInf else PInf)"
| "f_mul PInf (Fin y) = (if y = 0 then NaN else if 0 < y then PInf else NInf)"
| "f_mul NInf (Fin y) = (if y = 0 then NaN else if 0 < y then NInf else PInf)"
| "f_mul PInf PInf = PInf"
| "f_mul NInf NInf = PInf"
| "f_mul _ _ = NInf"

text \<open>\<open>np.floor\<close> is exact on doubles.\<close>

fun f_floor :: "f64 \<Rightarrow> f64" where
  "f_floor (Fin x) = Fin (of_int \<lfloor>x\<rfloor>)"
| "f_floor y = y"

definition f_of_u8 :: "u8 \<Rightarrow> f64" where
  "f_of_u8 v = Fin (of_nat (unat v))"

definition f_of_int :: "int \<Rightarrow> f64" where
  "f_of_int n = Fin (fl (of_int n))"

text \<open>
  \<open>astype(np.uint8)\<close> is C's conversion of a double to an unsigned char: the value is
  truncated towards zero.  When the truncated value does not fit in 8 bits, or the
  double is not finite, C leaves the result undefined and numpy returns whatever the
  platform does; that result is the parameter \<open>oor\<close> (out of range).
\<close>

definition trunc :: "rat \<Rightarrow> int" where
  "trunc x = (if 0 \<le> x then \<lfloor>x\<rfloor> else \<lceil>x\<rceil>)"

fun astype_uint8 :: "(f64 \<Rightarrow> u8) \<Rightarrow> f64 \<Rightarrow> u8" where
  "astype_uint8 oor (Fin x) =
     (if 0 \<le> trunc x \<and> trunc x \<le> 255 then word_of_int (trunc x) else oor (Fin x))"
| "astype_uint8 oor y = oor y"

text \<open>What x86-64 builds of numpy do with such a value: the low byte of the truncated
  value, and 0 for a value that is not finite.\<close>

fun x86_cast :: "f64 \<Rightarrow> u8" where
  "x86_cast (Fin x) = word_of_int (trunc x)"
| "x86_cast y = 0"


section \<open>The uniform quantizer (\<open>color_quantizer.py\<close>)\<close>

text \<open>
  Lines 42 to 48 of \<open>quantize_colors\<close>, for one sample \<open>v\<close>:
  \<^verbatim>\<open>
  img_normalized = img_np / 255.0
  img_quantized = np.floor(img_normalized * num_shades) / (num_shades - 1)
  img_quantized = (img_quantized * 255).astype(np.uint8)
  \<close>
\<close>

definition level :: "int \<Rightarrow> u8 \<Rightarrow> f64" where
  "level n v = f_floor (f_mul (f_div (f_of_u8 v) (Fin 255)) (f_of_int n))"

definition shade :: "int \<Rightarrow> f64 \<Rightarrow> f64" where
  "shade n l = f_mul (f_div l (f_of_int (n - 1))) (f_of_int 255)"

definition uq_sample :: "(f64 \<Rightarrow> u8) \<Rightarrow> int \<Rightarrow> u8 \<Rightarrow> u8" where
  "uq_sample oor n v = astype_uint8 oor (shade n (level n v))"










text \<open>
  The numbers inside the two float values of a sample, for shade counts whose doubles
  are finite and not zero: \<open>level n v = Fin (of_int (lvl n v))\<close> and
  \<open>shade n (Fin (of_int k)) = Fin (shd n k)\<close> (lemmas \<open>level_eq\<close> and \<open>shade_eq\<close>).
\<close>

definition lvl :: "int \<Rightarrow> u8 \<Rightarrow> int" where
  "lvl n v = \<lfloor>fl (fl (of_nat (unat v) / 255) * fl (of_int n))\<rfloor>"

definition shd :: "int \<Rightarrow> int \<Rightarrow> rat" where
  "shd n k = fl (fl (of_int k / fl (of_int (n - 1))) * fl (of_int 255))"

text \<open>
  The specification's formula for the same sample, in exact arithmetic: normalise,
  take the floor of the product with \<open>N\<close>, divide by \<open>N - 1\<close>, scale by 255, round to
  the nearest integer and clamp to 0..255.
\<close>

definition spec_uniform :: "int \<Rightarrow> nat \<Rightarrow> int" where
  "spec_uniform n v =
     (let normalized = (of_nat v / 255 :: rat);
          lev = \<lfloor>normalized * of_int n\<rfloor>;
          quantized_normalized = (of_int lev / of_int (n - 1) :: rat)
      in max 0 (min 255 (round (quantized_normalized * 255))))"


section \<open>The cluster quantizer (\<open>shader_down.py\<close>)\<close>




text \<open>
  Lines 51 to 70 on the flattened RGB samples.  \<open>centers[labels]\<close> raises IndexError for
  a label that is not a row of \<open>centers\<close>, and the \<open>reshape\<close> of lines 75 and 83 raises
  ValueError unless there is one label per pixel.
\<close>

definition center_uint8 :: "(f64 \<Rightarrow> u8) \<Rightarrow> rat \<times> rat \<times> rat \<Rightarrow> pixel" where
  "center_uint8 oor c =
     (case c of (r, g, b) \<Rightarrow>
        [astype_uint8 oor (Fin r), astype_uint8 oor (Fin g), astype_uint8 oor (Fin b)])"


text \<open>Lines 42 to 48 and 73 to 83: the alpha band is cut off and put back.\<close>

definition split_rgba :: "pixel list \<Rightarrow> pixel list \<times> u8 list" where
  "split_rgba pixels = (map (take 3) pixels, map (\<lambda>p. p ! 3) pixels)"


text \<open>Lines 42 to 48: the samples that are clustered.\<close>

definition flatten_rgb :: "image \<Rightarrow> pixel list" where
  "flatten_rgb img = (if mode img = ''RGBA'' then fst (split_rgba (pix img)) else pix img)"





definition wf_rgb :: "pixel list \<Rightarrow> bool" where
  "wf_rgb ps = list_all (\<lambda>p. length p = 3) ps"

definition wf_rgba :: "image \<Rightarrow> bool" where
  "wf_rgba img = (mode img = ''RGBA'' \<and> list_all (\<lambda>p. length p = 4) (pix img))"


section \<open>Concrete inputs\<close>







section \<open>Properties of the rounding model\<close>

lemma rne_err: "\<bar>of_int (rne x) - x\<bar> \<le> 1 / 2"
proof -
  define f where "f = \<lfloor>x\<rfloor>"
  define d where "d = x - of_int f"
  have d: "0 \<le> d" "d < 1" unfolding d_def f_def by linarith+
  have r: "rne x = (if d < 1 / 2 then f else if 1 / 2 < d then f + 1
                    else if even f then f else f + 1)"
    by (simp add: rne_def Let_def d_def f_def)
  consider "d < 1 / 2" | "1 / 2 < d" | "d = 1 / 2" by linarith
  then show ?thesis
  proof cases
    case 1
    then have "rne x = f" using r by simp
    then show ?thesis using d 1 unfolding d_def by (auto simp: abs_if)
  next
    case 2
    then have "rne x = f + 1" using r by simp
    then show ?thesis using d 2 unfolding d_def by (auto simp: abs_if)
  next
    case 3
    then have "rne x = f \<or> rne x = f + 1" using r by simp
    then show ?thesis using 3 unfolding d_def by (auto simp: abs_if)
  qed
qed

lemma rne_of_int [simp]: "rne (of_int n) = n"
  by (simp add: rne_def)

lemma rne_nonneg: "0 \<le> x \<Longrightarrow> 0 \<le> rne x"
  by (auto simp: rne_def Let_def)

lemma quotient_abs:
  assumes "x \<noteq> 0" "quotient_of \<bar>x\<bar> = (p, q)"
  shows "0 < p" "0 < q" "\<bar>x\<bar> = of_int p / of_int q"
proof -
  show q: "0 < q" using assms(2) by (rule quotient_of_denom_pos)
  show eq: "\<bar>x\<bar> = of_int p / of_int q" using assms(2) by (rule quotient_of_div)
  have "0 < \<bar>x\<bar>" using assms(1) by simp
  with eq q show "0 < p" by (simp add: zero_less_divide_iff)
qed

lemma bitlen_lo: "0 < p \<Longrightarrow> (2::rat) powi (bitlen p - 1) \<le> of_int p"
proof -
  assume p: "0 < p"
  then have "2 ^ nat (bitlen p - 1) \<le> p" using bitlen_bounds by blast
  then have "(of_int (2 ^ nat (bitlen p - 1)) :: rat) \<le> of_int p" by (simp only: of_int_le_iff)
  moreover have "0 \<le> bitlen p - 1" using p bitlen_bounds[of p] bitlen_nonneg[of p]
    by (smt (verit) bitlen_eq_zero_iff)
  ultimately show ?thesis by (simp add: power_int_def)
qed

lemma bitlen_hi: "0 < p \<Longrightarrow> of_int p < (2::rat) powi (bitlen p)"
proof -
  assume p: "0 < p"
  then have "p < 2 ^ nat (bitlen p)" using bitlen_bounds by blast
  then have "(of_int p :: rat) < of_int (2 ^ nat (bitlen p))" by (simp only: of_int_less_iff)
  then show ?thesis using bitlen_nonneg[of p] by (simp add: power_int_def)
qed

lemma expo_le: assumes "x \<noteq> 0" shows "2 powi (expo x) \<le> \<bar>x\<bar>"
proof -
  obtain p q where pq: "quotient_of \<bar>x\<bar> = (p, q)" by fastforce
  note h = quotient_abs[OF assms pq]
  let ?d = "bitlen p - bitlen q"
  show ?thesis
  proof (cases "2 powi ?d \<le> \<bar>x\<bar>")
    case True then show ?thesis by (simp add: expo_def pq)
  next
    case False
    then have e: "expo x = ?d - 1" by (simp add: expo_def pq)
    have "(2::rat) powi (?d - 1) = 2 powi (bitlen p - 1) / 2 powi (bitlen q)"
      by (simp add: power_int_diff power_int_add algebra_simps)
    also have "\<dots> \<le> of_int p / 2 powi (bitlen q)"
      using bitlen_lo[OF h(1)] by (simp add: divide_right_mono)
    also have "\<dots> \<le> of_int p / of_int q"
      using bitlen_hi[OF h(2)] h(1,2) by (intro divide_left_mono) (auto simp: less_imp_le)
    finally show ?thesis using e h(3) by simp
  qed
qed

lemma expo_gt: assumes "x \<noteq> 0" shows "\<bar>x\<bar> < 2 powi (expo x + 1)"
proof -
  obtain p q where pq: "quotient_of \<bar>x\<bar> = (p, q)" by fastforce
  note h = quotient_abs[OF assms pq]
  let ?d = "bitlen p - bitlen q"
  show ?thesis
  proof (cases "2 powi ?d \<le> \<bar>x\<bar>")
    case False then show ?thesis by (simp add: expo_def pq)
  next
    case True
    then have e: "expo x = ?d" by (simp add: expo_def pq)
    have "of_int p / of_int q < (2::rat) powi (bitlen p) / of_int q"
      using bitlen_hi[OF h(1)] h(2) by (simp add: divide_strict_right_mono)
    also have "\<dots> \<le> 2 powi (bitlen p) / 2 powi (bitlen q - 1)"
      using bitlen_lo[OF h(2)] h(2) by (intro divide_left_mono) (auto simp: less_imp_le zero_less_mult_iff)
    also have "\<dots> = 2 powi (?d + 1)"
      by (simp add: power_int_diff power_int_add algebra_simps)
    finally show ?thesis using e h(3) by simp
  qed
qed

lemma fl_err: "\<bar>fl x - x\<bar> \<le> \<bar>x\<bar> / 2 ^ 53"
proof (cases "x = 0")
  case True then show ?thesis by (simp add: fl_def)
next
  case False
  define u :: rat where "u = 2 powi (expo x - 52)"
  have u: "0 < u" by (simp add: u_def)
  have f: "fl x = of_int (rne (x / u)) * u" using False by (simp add: fl_def u_def Let_def)
  have "fl x - x = (of_int (rne (x / u)) - x / u) * u" using u by (simp add: f algebra_simps)
  then have "\<bar>fl x - x\<bar> = \<bar>of_int (rne (x / u)) - x / u\<bar> * u" using u by (simp add: abs_mult)
  also have "\<dots> \<le> (1 / 2) * u" using rne_err[of "x / u"] u by (intro mult_right_mono) auto
  also have "(1 / 2) * u = 2 powi (expo x) / 2 ^ 53"
    by (simp add: u_def power_int_diff)
  also have "\<dots> \<le> \<bar>x\<bar> / 2 ^ 53" using expo_le[OF False] by (simp add: divide_right_mono)
  finally show ?thesis .
qed

lemma fl_nonneg: "0 \<le> x \<Longrightarrow> 0 \<le> fl x"
  by (auto simp: fl_def Let_def intro!: mult_nonneg_nonneg rne_nonneg divide_nonneg_nonneg)

lemma fl_ub: "0 \<le> x \<Longrightarrow> fl x \<le> x * (1 + 1 / 2 ^ 53)"
  using fl_err[of x] by (simp add: abs_if algebra_simps split: if_splits)

lemma fl_lb: "0 \<le> x \<Longrightarrow> x * (1 - 1 / 2 ^ 53) \<le> fl x"
  using fl_err[of x] by (simp add: abs_if algebra_simps split: if_splits)

lemma fl_of_int: assumes "\<bar>n\<bar> < 2 ^ 53" shows "fl (of_int n) = of_int n"
proof (cases "n = 0")
  case True then show ?thesis by (simp add: fl_def)
next
  case False
  define x :: rat where "x = of_int n"
  have x0: "x \<noteq> 0" using False by (simp add: x_def)
  have "\<bar>x\<bar> < 2 ^ 53"
  proof -
    have "(of_int \<bar>n\<bar> :: rat) < of_int (2 ^ 53)" using assms by (simp only: of_int_less_iff)
    then show ?thesis by (simp add: x_def)
  qed
  with expo_le[OF x0] have "(2::rat) powi (expo x) < 2 powi 53" by simp
  then have e: "expo x < 53" by (rule power_int_le_imp_less_exp[rotated]) auto
  define k where "k = nat (52 - expo x)"
  have u: "(2::rat) powi (expo x - 52) = 1 / 2 ^ k"
    using e by (simp add: k_def power_int_def field_simps)
  have "x / (2 powi (expo x - 52)) = of_int (n * 2 ^ k)" unfolding u by (simp add: x_def)
  then have "rne (x / (2 powi (expo x - 52))) = n * 2 ^ k" by (simp only: rne_of_int)
  then have "fl x = of_int (n * 2 ^ k) * (1 / 2 ^ k)" using x0 unfolding fl_def Let_def u by simp
  then show ?thesis by (simp add: x_def)
qed

lemma u8_rat_nonneg [simp]: "0 \<le> (unsigned (v::u8) :: rat)"
  by (metis of_nat_unat of_nat_0_le_iff)

lemma u8_rat_le: "unat (v::u8) \<le> k \<Longrightarrow> (unsigned v :: rat) \<le> of_nat k"
  by (metis of_nat_unat of_nat_le_iff)

lemma level_eq: "level n v = Fin (of_int (lvl n v))"
  by (simp add: level_def lvl_def f_of_u8_def f_of_int_def)

lemma lvl_nonneg: "0 \<le> n \<Longrightarrow> 0 \<le> lvl n v"
  unfolding lvl_def by (intro zero_le_floor[THEN iffD2] fl_nonneg mult_nonneg_nonneg) auto

lemma lvl_less:
  assumes n: "1 \<le> n" and v: "unat v \<le> 254"
  shows "lvl n v < n"
proof -
  define e :: rat where "e = 1 + 1 / 2 ^ 53"
  define a where "a = fl (of_nat (unat v) / 255)"
  define b where "b = fl (of_int n)"
  have e1: "1 \<le> e" by (simp add: e_def)
  have a0: "0 \<le> a" unfolding a_def by (intro fl_nonneg) auto
  have b0: "0 \<le> b" unfolding b_def using n by (intro fl_nonneg) auto
  have "(of_nat (unat v) :: rat) \<le> 254" using u8_rat_le[OF v] by simp
  then have "(of_nat (unat v) / 255 :: rat) \<le> 254 / 255" by simp
  moreover have "a \<le> (of_nat (unat v) / 255) * e" unfolding a_def e_def by (intro fl_ub) auto
  ultimately have a: "a \<le> 254 / 255 * e"
    using e1 by (meson dual_order.trans mult_right_mono zero_le_one)
  have b: "b \<le> of_int n * e" unfolding b_def e_def using n by (intro fl_ub) auto
  have "a * b \<le> (254 / 255 * e) * (of_int n * e)"
    using a b a0 b0 e1 by (intro mult_mono) auto
  moreover have "fl (a * b) \<le> a * b * e" unfolding e_def using a0 b0 by (intro fl_ub) auto
  ultimately have "fl (a * b) \<le> (254 / 255 * e) * (of_int n * e) * e"
    using e1 by (meson dual_order.trans mult_right_mono zero_le_one)
  also have "\<dots> = (254 / 255 * e ^ 3) * of_int n" by (simp add: power3_eq_cube)
  also have "\<dots> < 1 * of_int n"
    using n by (intro mult_strict_right_mono) (auto simp: e_def power3_eq_cube)
  finally have "fl (a * b) < of_int n" by simp
  then show ?thesis unfolding lvl_def a_def b_def by (simp add: floor_less_iff)
qed

lemma fl_255: "fl (of_int 255) = 255"
  using fl_of_int[of 255] by simp

lemma fl_1: "fl 1 = 1"
  using fl_of_int[of 1] by simp

lemma fl_pred:
  assumes "2 \<le> n" "n \<le> 2 ^ 32"
  shows "fl (of_int (n - 1)) = of_int (n - 1)"
  using assms by (intro fl_of_int) auto

lemma shade_eq:
  assumes "2 \<le> n" "n \<le> 2 ^ 32"
  shows "shade n (Fin (of_int k)) = Fin (shd n k)"
proof -
  have "fl (of_int (n - 1)) \<noteq> 0" using assms by (simp add: fl_pred del: of_int_diff)
  then show ?thesis by (simp add: shade_def shd_def f_of_int_def del: of_int_diff)
qed

lemma shd_range:
  assumes n: "2 \<le> n" "n \<le> 2 ^ 32" and k: "0 \<le> k"
  shows "255 * of_int k / of_int (n - 1) * (1 - 1 / 2 ^ 53)\<^sup>2 \<le> shd n k"
    and "shd n k \<le> 255 * of_int k / of_int (n - 1) * (1 + 1 / 2 ^ 53)\<^sup>2"
    and "0 \<le> shd n k"
proof -
  define m :: rat where "m = of_int (n - 1)"
  define q :: rat where "q = of_int k / m"
  define y where "y = fl q"
  have m: "0 < m" using n by (simp add: m_def)
  have q0: "0 \<le> q" using k m by (simp add: q_def)
  have y0: "0 \<le> y" unfolding y_def using q0 by (rule fl_nonneg)
  have s: "shd n k = fl (y * 255)"
    unfolding shd_def fl_255 fl_pred[OF n] y_def q_def m_def ..
  show "0 \<le> shd n k" unfolding s using y0 by (intro fl_nonneg) auto
  have "q * (1 - 1 / 2 ^ 53) \<le> y" unfolding y_def using q0 by (rule fl_lb)
  then have "q * (1 - 1 / 2 ^ 53) * 255 * (1 - 1 / 2 ^ 53) \<le> y * 255 * (1 - 1 / 2 ^ 53)"
    by (intro mult_right_mono) auto
  also have "\<dots> \<le> fl (y * 255)" using y0 by (intro fl_lb) auto
  finally show "255 * of_int k / of_int (n - 1) * (1 - 1 / 2 ^ 53)\<^sup>2 \<le> shd n k"
    unfolding s q_def m_def by (simp add: power2_eq_square algebra_simps)
  have "fl (y * 255) \<le> y * 255 * (1 + 1 / 2 ^ 53)" using y0 by (intro fl_ub) auto
  also have "\<dots> \<le> q * (1 + 1 / 2 ^ 53) * 255 * (1 + 1 / 2 ^ 53)"
    using fl_ub[OF q0] unfolding y_def by (intro mult_right_mono) auto
  finally show "shd n k \<le> 255 * of_int k / of_int (n - 1) * (1 + 1 / 2 ^ 53)\<^sup>2"
    unfolding s q_def m_def by (simp add: power2_eq_square algebra_simps)
qed

lemma shd_bot: "2 \<le> n \<Longrightarrow> n \<le> 2 ^ 32 \<Longrightarrow> shd n 0 = 0"
  by (simp add: shd_def fl_def)

lemma shd_top:
  assumes "2 \<le> n" "n \<le> 2 ^ 32"
  shows "shd n (n - 1) = 255"
proof -
  have "of_int (n - 1) \<noteq> (0::rat)" using assms by simp
  then show ?thesis
    unfolding shd_def fl_pred[OF assms] fl_255 by (simp add: fl_1 del: of_int_diff) (use fl_255 in simp)
qed

lemma shd_floor_upper:
  assumes n: "2 \<le> n" "n \<le> 2 ^ 32" and k: "0 \<le> k" "k \<le> n - 1"
  shows "\<lfloor>shd n k\<rfloor> * (n - 1) \<le> 255 * k"
proof -
  define M :: rat where "M = of_int (n - 1)"
  define K :: rat where "K = of_int k"
  define c :: rat where "c = (1 + 1 / 2 ^ 53)\<^sup>2 - 1"
  have M: "0 < M" using n by (simp add: M_def)
  have K: "0 \<le> K" "K \<le> 2 ^ 32"
  proof -
    show "0 \<le> K" using k by (simp add: K_def)
    have "k \<le> 2 ^ 32" using n k by linarith
    then have "(of_int k :: rat) \<le> of_int (2 ^ 32)" by (simp only: of_int_le_iff)
    then show "K \<le> 2 ^ 32" by (simp add: K_def)
  qed
  have c: "0 \<le> c" "255 * 2 ^ 32 * c < 1" by (simp_all add: c_def power2_eq_square)
  have "of_int \<lfloor>shd n k\<rfloor> \<le> shd n k" by simp
  also have "\<dots> \<le> 255 * K / M * (1 + c)"
    using shd_range(2)[OF n k(1)] by (simp add: K_def M_def c_def)
  finally have "of_int \<lfloor>shd n k\<rfloor> * M \<le> 255 * K / M * (1 + c) * M"
    using M by (intro mult_right_mono) auto
  also have "\<dots> = 255 * K + 255 * K * c" using M by (simp add: field_simps)
  also have "255 * K * c \<le> 255 * 2 ^ 32 * c" using K c by (intro mult_right_mono) auto
  finally have "of_int \<lfloor>shd n k\<rfloor> * M < 255 * K + 1" using c(2) by simp
  then have "(of_int (\<lfloor>shd n k\<rfloor> * (n - 1)) :: rat) < of_int (255 * k + 1)"
    by (simp add: M_def K_def)
  then have "\<lfloor>shd n k\<rfloor> * (n - 1) < 255 * k + 1" by (simp only: of_int_less_iff)
  then show ?thesis by simp
qed

lemma shd_floor_lower:
  assumes n: "2 \<le> n" "n \<le> 2 ^ 32" and k: "0 \<le> k" "k \<le> n - 1"
  shows "255 * k - (n - 1) \<le> \<lfloor>shd n k\<rfloor> * (n - 1)"
proof -
  define M :: rat where "M = of_int (n - 1)"
  define K :: rat where "K = of_int k"
  define c :: rat where "c = 1 - (1 - 1 / 2 ^ 53)\<^sup>2"
  have M: "0 < M" using n by (simp add: M_def)
  have K: "0 \<le> K" "K \<le> 2 ^ 32"
  proof -
    show "0 \<le> K" using k by (simp add: K_def)
    have "k \<le> 2 ^ 32" using n k by linarith
    then have "(of_int k :: rat) \<le> of_int (2 ^ 32)" by (simp only: of_int_le_iff)
    then show "K \<le> 2 ^ 32" by (simp add: K_def)
  qed
  have c: "0 \<le> c" "255 * 2 ^ 32 * c < 1" by (simp_all add: c_def power2_eq_square)
  have "255 * K * c \<le> 255 * 2 ^ 32 * c" using K c by (intro mult_right_mono) auto
  then have kc: "255 * K * c < 1" using c(2) by simp
  have "255 * K / M * (1 - c) \<le> shd n k"
    using shd_range(1)[OF n k(1)] by (simp add: K_def M_def c_def)
  also have "shd n k < of_int \<lfloor>shd n k\<rfloor> + 1" by linarith
  finally have "255 * K / M * (1 - c) * M < (of_int \<lfloor>shd n k\<rfloor> + 1) * M"
    using M by (intro mult_strict_right_mono) auto
  moreover have "255 * K / M * (1 - c) * M = 255 * K - 255 * K * c"
    using M by (simp add: field_simps)
  ultimately have "255 * K - 1 - M < of_int \<lfloor>shd n k\<rfloor> * M"
    using kc by (simp add: algebra_simps)
  then have "(of_int (255 * k - 1 - (n - 1)) :: rat) < of_int (\<lfloor>shd n k\<rfloor> * (n - 1))"
    by (simp add: M_def K_def)
  then have "255 * k - 1 - (n - 1) < \<lfloor>shd n k\<rfloor> * (n - 1)" by (simp only: of_int_less_iff)
  then show ?thesis by simp
qed

lemma shd_floor_range:
  assumes n: "2 \<le> n" "n \<le> 2 ^ 32" and k: "0 \<le> k" "k \<le> n - 1"
  shows "0 \<le> \<lfloor>shd n k\<rfloor>" and "\<lfloor>shd n k\<rfloor> \<le> 255"
proof -
  show "0 \<le> \<lfloor>shd n k\<rfloor>" using shd_range(3)[OF n k(1)] by simp
  have "255 * k \<le> 255 * (n - 1)" using k by simp
  with shd_floor_upper[OF assms] have "\<lfloor>shd n k\<rfloor> * (n - 1) \<le> 255 * (n - 1)"
    by (rule order_trans)
  moreover have "0 < n - 1" using n by simp
  ultimately show "\<lfloor>shd n k\<rfloor> \<le> 255" by (rule mult_right_le_imp_le)
qed

lemma trunc_nonneg: "0 \<le> x \<Longrightarrow> trunc x = \<lfloor>x\<rfloor>"
  by (simp add: trunc_def)

lemma uint_u8_of_int: "0 \<le> t \<Longrightarrow> t \<le> 255 \<Longrightarrow> uint (word_of_int t :: u8) = t"
  by (simp add: uint_word_of_int take_bit_eq_mod)

lemma uq_sample_in_range:
  assumes n: "2 \<le> n" "n \<le> 2 ^ 32" and v: "unat v \<le> 254"
  shows "uq_sample oor n v = word_of_int \<lfloor>shd n (lvl n v)\<rfloor>"
    and "uint (uq_sample oor n v) = \<lfloor>shd n (lvl n v)\<rfloor>"
proof -
  have k: "0 \<le> lvl n v" "lvl n v \<le> n - 1"
    using lvl_nonneg[of n v] lvl_less[of n v] n v by auto
  note r = shd_floor_range[OF n k]
  have t: "trunc (shd n (lvl n v)) = \<lfloor>shd n (lvl n v)\<rfloor>"
    using shd_range(3)[OF n k(1)] by (rule trunc_nonneg)
  show "uq_sample oor n v = word_of_int \<lfloor>shd n (lvl n v)\<rfloor>"
    unfolding uq_sample_def level_eq shade_eq[OF n] using r by (simp add: t)
  then show "uint (uq_sample oor n v) = \<lfloor>shd n (lvl n v)\<rfloor>"
    using r by (simp only: uint_u8_of_int)
qed

lemma u8_not_255: "(v::u8) \<noteq> 255 \<Longrightarrow> unat v \<le> 254"
proof -
  assume a: "v \<noteq> 255"
  have "unat v \<noteq> 255"
  proof
    assume "unat v = 255"
    then have "word_of_nat (unat v) = (word_of_nat 255 :: u8)" by simp
    then show False using a by simp
  qed
  moreover have "unat v < 256" using unsigned_less[of v, where 'a=nat] by simp
  ultimately show ?thesis by simp
qed
lemma fl_0: "fl 0 = 0" by (simp add: fl_def)





lemma lvl_exact:
  assumes n: "1 \<le> n" "n \<le> 2 ^ 32" and k: "0 \<le> k"
    and lo: "255 * k < uint v * n" and hi: "uint v * n < 255 * (k + 1)"
  shows "lvl n (v::u8) = k"
proof -
  define e :: rat where "e = 1 / 2 ^ 53"
  define V :: rat where "V = of_int (uint v)"
  define N :: rat where "N = of_int n"
  define a where "a = fl (V / 255)"
  have fn: "fl (of_int n) = N" unfolding N_def using n by (intro fl_of_int) auto
  have V0: "0 \<le> V" unfolding V_def by simp
  have V255: "V \<le> 255"
  proof -
    have "uint v \<le> 255" using uint_lt2p[of v] by simp
    then have "(of_int (uint v) :: rat) \<le> of_int 255" by (simp only: of_int_le_iff)
    then show ?thesis by (simp add: V_def)
  qed
  have N0: "0 < N" "N \<le> 2 ^ 32"
  proof -
    show "0 < N" using n by (simp add: N_def)
    have "(of_int n :: rat) \<le> of_int (2 ^ 32)" using n by (simp only: of_int_le_iff)
    then show "N \<le> 2 ^ 32" by (simp add: N_def)
  qed
  have a0: "0 \<le> a" unfolding a_def using V0 by (intro fl_nonneg) auto
  have lv: "lvl n v = \<lfloor>fl (a * N)\<rfloor>"
    unfolding lvl_def fn a_def V_def by simp
  have W: "V * N \<le> 255 * 2 ^ 32" using V0 V255 N0 by (intro mult_mono) auto
  have W0: "0 \<le> V * N" using V0 N0 by simp
  have e0: "0 \<le> e" "e \<le> 1" by (simp_all add: e_def)
  define cu where "cu = V * N * ((1 + e)\<^sup>2 - 1)"
  define cl where "cl = V * N * (1 - (1 - e)\<^sup>2)"
  have "cu \<le> 255 * 2 ^ 32 * ((1 + e)\<^sup>2 - 1)"
    unfolding cu_def using W by (intro mult_right_mono) (auto simp: e_def power2_eq_square)
  also have "\<dots> < 1" by (simp add: e_def power2_eq_square)
  finally have cu: "cu < 1" .
  have "cl \<le> 255 * 2 ^ 32 * (1 - (1 - e)\<^sup>2)"
    unfolding cl_def using W by (intro mult_right_mono) (auto simp: e_def power2_eq_square)
  also have "\<dots> < 1" by (simp add: e_def power2_eq_square)
  finally have cl: "cl < 1" .
  have au: "a \<le> V / 255 * (1 + e)" unfolding a_def e_def using V0 by (intro fl_ub) auto
  have al: "V / 255 * (1 - e) \<le> a" unfolding a_def e_def using V0 by (intro fl_lb) auto
  have "fl (a * N) \<le> a * N * (1 + e)" unfolding e_def using a0 N0 by (intro fl_ub) auto
  also have "\<dots> \<le> V / 255 * (1 + e) * N * (1 + e)"
    using au N0 e0 by (intro mult_right_mono) auto
  also have "\<dots> = (V * N + cu) / 255"
    unfolding cu_def by (simp add: power2_eq_square algebra_simps)
  also have "\<dots> < (V * N + 1) / 255" using cu by (simp add: divide_strict_right_mono)
  finally have up: "fl (a * N) < (V * N + 1) / 255" .
  have "uint v * n + 1 \<le> 255 * (k + 1)" using hi by simp
  then have "(of_int (uint v * n + 1) :: rat) \<le> of_int (255 * (k + 1))"
    by (simp only: of_int_le_iff)
  then have "V * N + 1 \<le> 255 * (of_int k + 1)" by (simp add: V_def N_def)
  then have "(V * N + 1) / 255 \<le> of_int k + 1" by (simp add: field_simps)
  with up have up': "fl (a * N) < of_int k + 1" by (rule less_le_trans)
  have "255 * k + 1 \<le> uint v * n" using lo by simp
  then have "(of_int (255 * k + 1) :: rat) \<le> of_int (uint v * n)"
    by (simp only: of_int_le_iff)
  then have "255 * of_int k \<le> V * N - 1" by (simp add: V_def N_def)
  then have "of_int k \<le> (V * N - 1) / 255" by (simp add: field_simps)
  also have "\<dots> < (V * N - cl) / 255" using cl by (simp add: divide_strict_right_mono)
  also have "\<dots> = V / 255 * (1 - e) * N * (1 - e)"
    unfolding cl_def by (simp add: power2_eq_square algebra_simps)
  also have "\<dots> \<le> a * N * (1 - e)"
    using al N0 e0 by (intro mult_right_mono) auto
  also have "\<dots> \<le> fl (a * N)" unfolding e_def using a0 N0 by (intro fl_lb) auto
  finally have lo': "of_int k \<le> fl (a * N)" by simp
  show ?thesis unfolding lv using lo' up' by (simp add: floor_eq_iff)
qed

lemma regrid_evaluated: "\<lfloor>shd 17 1\<rfloor> = 15 \<and> lvl 17 15 = 1 \<and> \<lfloor>shd 18 1\<rfloor> = 15 \<and> lvl 18 15 = 1
   \<and> \<lfloor>shd 19 1\<rfloor> = 14 \<and> lvl 19 14 = 1 \<and> \<lfloor>shd 20 1\<rfloor> = 13 \<and> lvl 20 13 = 1"
  by code_simp

lemma lvl_zero: "lvl n 0 = 0"
  by (simp add: lvl_def fl_0)

lemma u8_of_int_eq_255: "0 \<le> t \<Longrightarrow> t \<le> 255 \<Longrightarrow> (word_of_int t :: u8) = 255 \<Longrightarrow> t = 255"
  by (metis uint_u8_of_int uint_bintrunc take_bit_numeral_bit1 order_refl zero_le_numeral word_of_int_numeral)

lemma regrid_general:
  assumes n: "2 \<le> n" "n \<le> 2 ^ 32" and k: "1 \<le> k" "k \<le> n - 2"
    and c: "n * n \<le> 255 * k + 1"
    and t: "t = \<lfloor>shd n k\<rfloor>" "t \<noteq> 255"
  shows "lvl n (word_of_int t) = k"
proof -
  have k': "0 \<le> k" "k \<le> n - 1" using k by auto
  define p where "p = t * (n - 1)"
  have up: "p \<le> 255 * k" unfolding p_def t by (rule shd_floor_upper[OF n k'])
  have lo: "255 * k - (n - 1) \<le> p" unfolding p_def t by (rule shd_floor_lower[OF n k'])
  have r0: "0 \<le> t" "t \<le> 255" unfolding t(1) by (rule shd_floor_range[OF n k'])+
  have r: "0 \<le> t" "t \<le> 254" using r0 t(2) by linarith+
  have u: "uint (word_of_int t :: u8) = t" using r by (intro uint_u8_of_int) auto
  have tn: "n \<le> t"
  proof (rule ccontr)
    assume "\<not> n \<le> t"
    then have "t \<le> n - 1" by simp
    then have "p \<le> (n - 1) * (n - 1)" unfolding p_def using n by (intro mult_right_mono) auto
    also have "(n - 1) * (n - 1) = n * n - 2 * n + 1" by (simp add: algebra_simps)
    finally show False using lo c n by linarith
  qed
  have e: "t * n = p + t" by (simp add: p_def algebra_simps)
  show ?thesis
  proof (rule lvl_exact)
    show "1 \<le> n" "n \<le> 2 ^ 32" "0 \<le> k" using n k by auto
    show "255 * k < uint (word_of_int t :: u8) * n" unfolding u e using lo tn by simp
    show "uint (word_of_int t :: u8) * n < 255 * (k + 1)" unfolding u e using up r by simp
  qed
qed

lemma regrid_special:
  assumes n: "17 \<le> n" "n \<le> 20"
  shows "lvl n (word_of_int \<lfloor>shd n 1\<rfloor>) = 1"
proof -
  consider "n = 17" | "n = 18" | "n = 19" | "n = 20" using n by linarith
  then show ?thesis
  proof cases
    case 1 then show ?thesis using regrid_evaluated by simp
  next
    case 2 then show ?thesis using regrid_evaluated by simp
  next
    case 3 then show ?thesis using regrid_evaluated by simp
  next
    case 4 then show ?thesis using regrid_evaluated by simp
  qed
qed



section \<open>The uniform quantizer, sample by sample\<close>

text \<open>
  A sample of 255 reaches level \<open>n\<close>, one above the highest shade: for two shades its
  double is 510, which no 8-bit sample holds, so the result is whatever the platform's
  conversion makes of it (254 on x86-64).
\<close>

lemma uq_sample_255_two_shades: "uq_sample x86_cast 2 255 = 254"
  by code_simp

text \<open>
  Claim C1, as amended.  For every shade count \<open>n\<close> from 2 to \<open>2 ^ 32\<close> and every sample
  \<open>v\<close> other than 255, the level \<open>floor(v / 255.0 * n)\<close> is one of \<open>0, \<dots>, n - 1\<close>, and the
  output sample is the double \<open>level / (n - 1) * 255\<close> truncated towards zero (not
  rounded to the nearest integer): it needs no clamp, lies in 0..255 whatever the
  platform does with values out of range, and is at most 1 below
  \<open>255 * level / (n - 1)\<close> and never above it.  Level 0 gives 0, level \<open>n - 1\<close> gives 255,
  and the sample 0 is a fixed point.
\<close>

theorem uniform_quantizer_levels:
  assumes "2 \<le> n" "n \<le> 2 ^ 32" "v \<noteq> 255"
  shows "0 \<le> lvl n v \<and> lvl n v < n
    \<and> level n v = Fin (of_int (lvl n v))
    \<and> shade n (level n v) = Fin (shd n (lvl n v))
    \<and> uint (uq_sample oor n v) = trunc (shd n (lvl n v))
    \<and> uint (uq_sample oor n v) \<le> 255
    \<and> 255 * of_int (lvl n v) / of_int (n - 1) - 1 \<le> (of_int (uint (uq_sample oor n v)) :: rat)
    \<and> (of_int (uint (uq_sample oor n v)) :: rat) \<le> 255 * of_int (lvl n v) / of_int (n - 1)
    \<and> trunc (shd n 0) = 0 \<and> trunc (shd n (n - 1)) = 255
    \<and> uq_sample oor n 0 = 0"
proof -
  have n: "2 \<le> n" "n \<le> 2 ^ 32" by fact+
  have v: "unat v \<le> 254" using assms(3) by (rule u8_not_255)
  have k: "0 \<le> lvl n v" "lvl n v \<le> n - 1"
    using lvl_nonneg[of n v] lvl_less[of n v] n v by auto
  define t where "t = \<lfloor>shd n (lvl n v)\<rfloor>"
  have u: "uint (uq_sample oor n v) = t" unfolding t_def by (rule uq_sample_in_range(2)[OF n v])
  have tr: "trunc (shd n (lvl n v)) = t"
    unfolding t_def using shd_range(3)[OF n k(1)] by (rule trunc_nonneg)
  have m: "0 < (of_int (n - 1) :: rat)" using n by simp
  have "(of_int (t * (n - 1)) :: rat) \<le> of_int (255 * lvl n v)"
    unfolding t_def using shd_floor_upper[OF n k] by (simp only: of_int_le_iff)
  then have up: "(of_int t :: rat) \<le> 255 * of_int (lvl n v) / of_int (n - 1)"
    using m by (simp add: pos_le_divide_eq)
  have "(of_int (255 * lvl n v - (n - 1)) :: rat) \<le> of_int (t * (n - 1))"
    unfolding t_def using shd_floor_lower[OF n k] by (simp only: of_int_le_iff)
  then have lo: "255 * of_int (lvl n v) / of_int (n - 1) - 1 \<le> (of_int t :: rat)"
    using m by (simp add: pos_divide_le_eq algebra_simps)
  have "trunc (shd n 0) = 0" by (simp add: shd_bot[OF n] trunc_def)
  moreover have "trunc (shd n (n - 1)) = 255" by (simp add: shd_top[OF n] trunc_def)
  moreover have "t \<le> 255" unfolding t_def by (rule shd_floor_range(2)[OF n k])
  moreover have "uq_sample oor n 0 = 0"
    using uq_sample_in_range(1)[OF n, of 0 oor] by (simp add: lvl_def fl_def shd_bot[OF n])
  ultimately show ?thesis
    using k level_eq[of n v] shade_eq[OF n, of "lvl n v"] u tr up lo by simp
qed

theorem uniform_quantizer_levels_witness:
  "(2::int) \<le> 16 \<and> (16::int) \<le> 2 ^ 32 \<and> (100::u8) \<noteq> 255
   \<and> 0 \<le> lvl 16 100 \<and> lvl 16 100 < 16
   \<and> uint (uq_sample x86_cast 16 100) = trunc (shd 16 (lvl 16 100))
   \<and> uint (uq_sample x86_cast 16 100) \<le> 255"
  using uniform_quantizer_levels[of 16 100 x86_cast] by simp

text \<open>
  Claim C1 as stated fails: with 5 shades the sample 60 has level 1 and the double
  \<open>1 / 4 * 255 = 63.75\<close>; the code stores 63, rounding to the nearest integer gives 64.
\<close>

theorem uniform_quantizer_rounding_counterexample:
  "uint (uq_sample x86_cast 5 60) = 63 \<and> spec_uniform 5 60 = 64"
  by code_simp


text \<open>
  Claim C7, as amended.  For every shade count \<open>n\<close> from 2 to 20, quantizing twice gives
  the same as quantizing once for every sample other than 255 whose quantized value is
  not 255.  For a larger \<open>n\<close> (up to \<open>2 ^ 32\<close>) this still holds for the samples whose level
  \<open>k\<close> is 0 or has \<open>n * n \<le> 255 * k + 1\<close>: the truncated shade then falls into the level
  it came from.
\<close>

theorem uniform_quantizer_idempotent:
  assumes n: "2 \<le> n" "n \<le> 2 ^ 32" and v: "v \<noteq> 255"
    and g: "uq_sample oor n v \<noteq> 255"
    and c: "n \<le> 20 \<or> lvl n v = 0 \<or> n * n \<le> 255 * lvl n v + 1"
  shows "uq_sample oor n (uq_sample oor n v) = uq_sample oor n v"
proof -
  define k where "k = lvl n v"
  define t where "t = \<lfloor>shd n k\<rfloor>"
  have v': "unat v \<le> 254" using v by (rule u8_not_255)
  have k: "0 \<le> k" "k \<le> n - 1"
    unfolding k_def using lvl_nonneg[of n v] lvl_less[of n v] n v' by auto
  have q: "uq_sample oor n v = word_of_int t"
    unfolding t_def k_def by (rule uq_sample_in_range(1)[OF n v'])
  have r: "0 \<le> t" "t \<le> 255" unfolding t_def by (rule shd_floor_range[OF n k])+
  have t255: "t \<noteq> 255" using g unfolding q by auto
  have kn: "k \<noteq> n - 1"
  proof
    assume "k = n - 1"
    then have "t = 255" unfolding t_def by (simp add: shd_top[OF n])
    with t255 show False by simp
  qed
  then have k2: "k \<le> n - 2" using k by simp
  have g': "unat (word_of_int t :: u8) \<le> 254"
    using g unfolding q by (rule u8_not_255)
  have l: "lvl n (word_of_int t) = k"
  proof (cases "k = 0")
    case True
    have "t * (n - 1) \<le> 0" using shd_floor_upper[OF n k] True by (simp add: t_def)
    moreover have "0 < n - 1" using n by simp
    ultimately have "t \<le> 0" by (simp add: mult_le_0_iff)
    with r have "t = 0" by simp
    then show ?thesis using True by (simp add: lvl_zero)
  next
    case False
    then have k1: "1 \<le> k" using k by simp
    show ?thesis
    proof (cases "n * n \<le> 255 * k + 1")
      case True
      show ?thesis by (rule regrid_general[OF n k1 k2 True t_def t255])
    next
      case False
      with c \<open>k \<noteq> 0\<close> have n20: "n \<le> 20" by (auto simp: k_def)
      have "255 * k + 1 < 20 * 20"
      proof -
        have "n * n \<le> 20 * 20" using n n20 by (intro mult_mono) auto
        with False show ?thesis by linarith
      qed
      then have k1': "k = 1" using k1 by simp
      have "17 \<le> n"
      proof (rule ccontr)
        assume "\<not> 17 \<le> n"
        then have "n \<le> 16" by simp
        then have "n * n \<le> 16 * 16" using n by (intro mult_mono) auto
        with False k1' show False by simp
      qed
      then show ?thesis using regrid_special[OF _ n20] by (simp add: t_def k1')
    qed
  qed
  have "uq_sample oor n (word_of_int t) = word_of_int \<lfloor>shd n (lvl n (word_of_int t))\<rfloor>"
    by (rule uq_sample_in_range(1)[OF n g'])
  then have "uq_sample oor n (word_of_int t) = word_of_int t"
    unfolding l t_def[symmetric] .
  then show ?thesis unfolding q .
qed

theorem uniform_quantizer_idempotent_witness:
  "(2::int) \<le> 16 \<and> (16::int) \<le> 2 ^ 32 \<and> (100::u8) \<noteq> 255
   \<and> uq_sample x86_cast 16 100 \<noteq> 255 \<and> (16::int) \<le> 20
   \<and> uq_sample x86_cast 16 (uq_sample x86_cast 16 100) = uq_sample x86_cast 16 100"
proof -
  have h: "uq_sample x86_cast 16 100 \<noteq> 255" by code_simp
  show ?thesis using uniform_quantizer_idempotent[of 16 100 x86_cast] h by simp
qed

text \<open>
  Claim C7 as stated fails: with 21 shades the sample 13 is quantized to 12 (level 1,
  \<open>1 / 20 * 255 = 12.75\<close>, truncated), a value of the output grid, and 12 is quantized to 0.
\<close>

theorem uniform_quantizer_idempotent_counterexample:
  "uq_sample x86_cast 21 13 = 12 \<and> uq_sample x86_cast 21 12 = 0"
  by code_simp


section \<open>One shade\<close>










section \<open>Counting colours\<close>






section \<open>The cluster quantizer\<close>

lemma length_center_uint8 [simp]: "length (center_uint8 oor c) = 3"
  by (cases c) (simp add: center_uint8_def)











lemma length_flatten_rgb [simp]: "length (flatten_rgb img) = length (pix img)"
  by (simp add: flatten_rgb_def split_rgba_def)















end
